theory Spec2Isabelle
  imports Main "HOL-Library.Word"
begin

unbundle bit_operations_syntax

section \<open>SipHash.h: the streaming SipHash engine\<close>

text \<open>
  The embedding follows \<^verbatim>\<open>dbms/src/Common/SipHash.h\<close>. The class \<^verbatim>\<open>SipHash\<close> is a
  record of its six fields, every member function takes the object and returns the
  updated one, and the caller's buffer is a list of bytes that a pointer indexes by a
  natural number. A read through a pointer that leaves the buffer is the error
  \<open>OutOfBounds\<close>, so that every dereference of the source is a branch of the model.

  The anonymous union of \<^verbatim>\<open>current_word\<close> and \<^verbatim>\<open>current_bytes[8]\<close> is one 64-bit
  word; \<^verbatim>\<open>current_bytes[i]\<close> is its bits \<open>8 * i\<close> to \<open>8 * i + 7\<close>, which is the
  layout of the little-endian hosts the code is built for.
\<close>

type_synonym u64 = "64 word"
type_synonym u8 = "8 word"

subsection \<open>Memory views\<close>

datatype error = OutOfBounds

text \<open>\<^verbatim>\<open>current_bytes[i]\<close> read and \<^verbatim>\<open>current_bytes[i] = b\<close> on the word of the union.\<close>

definition get_byte :: "nat \<Rightarrow> u64 \<Rightarrow> u8" where
  "get_byte i w = ucast (drop_bit (8 * i) w)"

definition set_byte :: "nat \<Rightarrow> u8 \<Rightarrow> u64 \<Rightarrow> u64" where
  "set_byte i b w = (w AND NOT (push_bit (8 * i) 0xff)) OR push_bit (8 * i) (ucast b)"

text \<open>The 64-bit value of consecutive bytes in memory, lowest address first.\<close>

fun load_le :: "u8 list \<Rightarrow> u64" where
  "load_le [] = 0"
| "load_le (b # bs) = ucast b OR push_bit 8 (load_le bs)"

text \<open>The eight bytes a 64-bit store leaves in memory, lowest address first.\<close>

definition store_le :: "u64 \<Rightarrow> u8 list" where
  "store_le w = map (\<lambda>i. get_byte i w) [0..<8]"

text \<open>\<^verbatim>\<open>*p\<close> for a \<^verbatim>\<open>const char *\<close> at offset \<open>p\<close> of the buffer.\<close>

definition read_u8 :: "u8 list \<Rightarrow> nat \<Rightarrow> error + u8" where
  "read_u8 mem p = (if p < length mem then Inr (mem ! p) else Inl OutOfBounds)"

text \<open>\<^verbatim>\<open>*reinterpret_cast<const u64 *>(p)\<close>: the eight bytes from offset \<open>p\<close>.\<close>

definition read_u64 :: "u8 list \<Rightarrow> nat \<Rightarrow> error + u64" where
  "read_u64 mem p =
     (if p + 8 \<le> length mem then Inr (load_le (take 8 (drop p mem))) else Inl OutOfBounds)"

text \<open>\<^verbatim>\<open>reinterpret_cast<u64 *>(out)[i] = w\<close>: eight bytes written from offset \<open>8 * i\<close>.\<close>

definition write_u64 :: "u8 list \<Rightarrow> nat \<Rightarrow> u64 \<Rightarrow> error + u8 list" where
  "write_u64 out i w =
     (if 8 * i + 8 \<le> length out
      then Inr (take (8 * i) out @ store_le w @ drop (8 * i + 8) out)
      else Inl OutOfBounds)"

subsection \<open>The macros\<close>

text \<open>\<^verbatim>\<open>#define ROTL(x,b) static_cast<u64>( ((x) << (b)) | ( (x) >> (64 - (b))) )\<close>\<close>

definition ROTL :: "u64 \<Rightarrow> nat \<Rightarrow> u64" where
  "ROTL x b = push_bit b x OR drop_bit (64 - b) x"

record SipHash =
  v0 :: u64
  v1 :: u64
  v2 :: u64
  v3 :: u64
  cnt :: u64
  current_word :: u64

text \<open>\<^verbatim>\<open>SIPROUND\<close>, one assignment of the macro after the other.\<close>

definition SIPROUND :: "SipHash \<Rightarrow> SipHash" where
  "SIPROUND s =
    (let s = s\<lparr>v0 := v0 s + v1 s\<rparr>; s = s\<lparr>v1 := ROTL (v1 s) 13\<rparr>;
         s = s\<lparr>v1 := v1 s XOR v0 s\<rparr>; s = s\<lparr>v0 := ROTL (v0 s) 32\<rparr>;
         s = s\<lparr>v2 := v2 s + v3 s\<rparr>; s = s\<lparr>v3 := ROTL (v3 s) 16\<rparr>;
         s = s\<lparr>v3 := v3 s XOR v2 s\<rparr>;
         s = s\<lparr>v0 := v0 s + v3 s\<rparr>; s = s\<lparr>v3 := ROTL (v3 s) 21\<rparr>;
         s = s\<lparr>v3 := v3 s XOR v0 s\<rparr>;
         s = s\<lparr>v2 := v2 s + v1 s\<rparr>; s = s\<lparr>v1 := ROTL (v1 s) 17\<rparr>;
         s = s\<lparr>v1 := v1 s XOR v2 s\<rparr>; s = s\<lparr>v2 := ROTL (v2 s) 32\<rparr>
     in s)"

subsection \<open>The class\<close>

text \<open>
  The four statements \<^verbatim>\<open>v3 ^= current_word; SIPROUND; SIPROUND; v0 ^= current_word;\<close>
  stand three times in the source (in \<^verbatim>\<open>finalize\<close> and twice in \<^verbatim>\<open>update\<close>).
\<close>

definition mix_current_word :: "SipHash \<Rightarrow> SipHash" where
  "mix_current_word s =
    (let s = s\<lparr>v3 := v3 s XOR current_word s\<rparr>;
         s = SIPROUND s;
         s = SIPROUND s;
         s = s\<lparr>v0 := v0 s XOR current_word s\<rparr>
     in s)"

text \<open>\<^verbatim>\<open>void finalize()\<close>; the assignment of \<^verbatim>\<open>cnt\<close> to a \<^verbatim>\<open>u8\<close> truncates it.\<close>

definition finalize :: "SipHash \<Rightarrow> SipHash" where
  "finalize s =
    (let s = s\<lparr>current_word := set_byte 7 (ucast (cnt s)) (current_word s)\<rparr>;
         s = mix_current_word s;
         s = s\<lparr>v2 := v2 s XOR 0xff\<rparr>;
         s = SIPROUND s;
         s = SIPROUND s;
         s = SIPROUND s;
         s = SIPROUND s
     in s)"

text \<open>\<^verbatim>\<open>SipHash(u64 k0 = 0, u64 k1 = 0)\<close>, and the constructor call without arguments.\<close>

definition SipHash_init :: "u64 \<Rightarrow> u64 \<Rightarrow> SipHash" where
  "SipHash_init k0 k1 =
    \<lparr> v0 = 0x736f6d6570736575 XOR k0,
      v1 = 0x646f72616e646f6d XOR k1,
      v2 = 0x6c7967656e657261 XOR k0,
      v3 = 0x7465646279746573 XOR k1,
      cnt = 0,
      current_word = 0 \<rparr>"

definition SipHash_default :: SipHash where
  "SipHash_default = SipHash_init 0 0"

text \<open>
  The first loop of \<^verbatim>\<open>update\<close>:
  \<^verbatim>\<open>while (cnt & 7 && data < end) { current_bytes[cnt & 7] = *data; ++data; ++cnt; }\<close>.
  It returns the object and the advanced pointer.
\<close>

function fill_loop :: "u8 list \<Rightarrow> nat \<Rightarrow> SipHash \<Rightarrow> nat \<Rightarrow> error + SipHash \<times> nat" where
  "fill_loop mem end s data =
    (if cnt s AND 7 \<noteq> 0 \<and> data < end then
       (case read_u8 mem data of
          Inl e \<Rightarrow> Inl e
        | Inr b \<Rightarrow>
            fill_loop mem end
              (s\<lparr>current_word := set_byte (unat (cnt s AND 7)) b (current_word s),
                 cnt := cnt s + 1\<rparr>)
              (data + 1))
     else Inr (s, data))"
  by pat_completeness auto
termination
  by (relation "measure (\<lambda>(mem, end, s, data). end - data)") auto

text \<open>
  The second loop:
  \<^verbatim>\<open>while (data + 8 <= end) { current_word = *reinterpret_cast<const u64 *>(data); ...; data += 8; }\<close>.
\<close>

function word_loop :: "u8 list \<Rightarrow> nat \<Rightarrow> SipHash \<Rightarrow> nat \<Rightarrow> error + SipHash \<times> nat" where
  "word_loop mem end s data =
    (if data + 8 \<le> end then
       (case read_u64 mem data of
          Inl e \<Rightarrow> Inl e
        | Inr w \<Rightarrow> word_loop mem end (mix_current_word (s\<lparr>current_word := w\<rparr>)) (data + 8))
     else Inr (s, data))"
  by pat_completeness auto
termination
  by (relation "measure (\<lambda>(mem, end, s, data). end - data)") auto

text \<open>
  The \<^verbatim>\<open>switch (end - data)\<close>: entered at \<^verbatim>\<open>case n\<close>, control falls through
  \<^verbatim>\<open>case n: current_bytes[n - 1] = data[n - 1];\<close> down to \<^verbatim>\<open>case 0: break;\<close>.
  There are labels for 0 to 7 only and no default, so any other value skips the body.
\<close>

fun switch_cases :: "u8 list \<Rightarrow> nat \<Rightarrow> nat \<Rightarrow> SipHash \<Rightarrow> error + SipHash" where
  "switch_cases mem data 0 s = Inr s"
| "switch_cases mem data (Suc k) s =
    (case read_u8 mem (data + k) of
       Inl e \<Rightarrow> Inl e
     | Inr b \<Rightarrow> switch_cases mem data k (s\<lparr>current_word := set_byte k b (current_word s)\<rparr>))"

definition switch_tail :: "u8 list \<Rightarrow> nat \<Rightarrow> nat \<Rightarrow> SipHash \<Rightarrow> error + SipHash" where
  "switch_tail mem end data s =
    (if end - data \<le> 7 then switch_cases mem data (end - data) s else Inr s)"

text \<open>
  \<^verbatim>\<open>void update(const char * data, u64 size)\<close>. The buffer is \<open>mem\<close>, \<^verbatim>\<open>data\<close> starts
  at its offset 0 and \<^verbatim>\<open>end\<close> is the offset \<open>sz\<close> (the argument \<^verbatim>\<open>size\<close>); \<^verbatim>\<open>cnt += end - data\<close> adds the
  distance modulo \<open>2 ^ 64\<close>.
\<close>

definition update_rest :: "u8 list \<Rightarrow> nat \<Rightarrow> SipHash \<Rightarrow> nat \<Rightarrow> error + SipHash" where
  "update_rest mem end s data =
    (let s = s\<lparr>cnt := cnt s + of_nat (end - data)\<rparr> in
     case word_loop mem end s data of
       Inl e \<Rightarrow> Inl e
     | Inr (s, data) \<Rightarrow> switch_tail mem end data (s\<lparr>current_word := 0\<rparr>))"

definition update :: "SipHash \<Rightarrow> u8 list \<Rightarrow> nat \<Rightarrow> error + SipHash" where
  "update s mem sz =
    (let data = 0; end = data + sz in
     if cnt s AND 7 \<noteq> 0 then
       (case fill_loop mem end s data of
          Inl e \<Rightarrow> Inl e
        | Inr (s, data) \<Rightarrow>
            if cnt s AND 7 \<noteq> 0 then Inr s
            else update_rest mem end (mix_current_word s) data)
     else update_rest mem end s data)"

text \<open>\<^verbatim>\<open>u64 get64()\<close>, \<^verbatim>\<open>void get128(u64 & lo, u64 & hi)\<close> and \<^verbatim>\<open>void get128(char * out)\<close>;
  each returns what it produces together with the finalized object.\<close>

definition get64 :: "SipHash \<Rightarrow> u64 \<times> SipHash" where
  "get64 s = (let s = finalize s in (v0 s XOR v1 s XOR v2 s XOR v3 s, s))"

definition get128 :: "SipHash \<Rightarrow> (u64 \<times> u64) \<times> SipHash" where
  "get128 s = (let s = finalize s; lo = v0 s XOR v1 s; hi = v2 s XOR v3 s in ((lo, hi), s))"

definition get128_out :: "SipHash \<Rightarrow> u8 list \<Rightarrow> error + u8 list \<times> SipHash" where
  "get128_out s out =
    (let s = finalize s in
     case write_u64 out 0 (v0 s XOR v1 s) of
       Inl e \<Rightarrow> Inl e
     | Inr out \<Rightarrow>
         (case write_u64 out 1 (v2 s XOR v3 s) of
            Inl e \<Rightarrow> Inl e
          | Inr out \<Rightarrow> Inr (out, s)))"

subsection \<open>The free functions\<close>

definition sipHash128 :: "u8 list \<Rightarrow> nat \<Rightarrow> u8 list \<Rightarrow> error + u8 list" where
  "sipHash128 mem sz out =
    (let hash = SipHash_default in
     case update hash mem sz of
       Inl e \<Rightarrow> Inl e
     | Inr hash \<Rightarrow>
         (case get128_out hash out of
            Inl e \<Rightarrow> Inl e
          | Inr (out, hash) \<Rightarrow> Inr out))"

definition sipHash64 :: "u8 list \<Rightarrow> nat \<Rightarrow> error + u64" where
  "sipHash64 mem sz =
    (let hash = SipHash_default in
     case update hash mem sz of
       Inl e \<Rightarrow> Inl e
     | Inr hash \<Rightarrow> Inr (fst (get64 hash)))"

text \<open>\<^verbatim>\<open>sipHash64(const std::string & s)\<close>: the string's bytes and their number.\<close>

definition sipHash64_string :: "u8 list \<Rightarrow> error + u64" where
  "sipHash64_string s = sipHash64 s (length s)"

declare fill_loop.simps [simp del] word_loop.simps [simp del]

section \<open>Notions the properties are stated with\<close>

subsection \<open>Calls in sequence\<close>

text \<open>One \<^verbatim>\<open>update\<close> call per chunk, in order; each chunk is passed with its own length.\<close>

fun updates :: "SipHash \<Rightarrow> u8 list list \<Rightarrow> error + SipHash" where
  "updates s [] = Inr s"
| "updates s (c # cs) =
    (case update s c (length c) of Inl e \<Rightarrow> Inl e | Inr s' \<Rightarrow> updates s' cs)"

subsection \<open>The state as a function of the bytes absorbed so far\<close>

text \<open>The four lanes of an object.\<close>

type_synonym lanes = "u64 \<times> u64 \<times> u64 \<times> u64"

definition lanes :: "SipHash \<Rightarrow> lanes" where
  "lanes s = (v0 s, v1 s, v2 s, v3 s)"

text \<open>The complete 8-byte words of a byte string, and the bytes left over after them.\<close>

function le_words :: "u8 list \<Rightarrow> u64 list" where
  "le_words bs = (if length bs < 8 then [] else load_le (take 8 bs) # le_words (drop 8 bs))"
  by pat_completeness auto
termination
  by (relation "measure length") auto

declare le_words.simps [simp del]

definition tail_bytes :: "u8 list \<Rightarrow> u8 list" where
  "tail_bytes bs = drop (8 * (length bs div 8)) bs"

text \<open>
  Absorbing one word: it is XORed into lane 3, two rounds run, it is XORed into lane 0.
  \<open>stream_from s0 bs\<close> is the object that has absorbed the byte string \<open>bs\<close> since it was
  \<open>s0\<close>: its complete words are mixed in, its length is counted, its left-over bytes wait
  in the low bytes of the carry word above which all is zero.
\<close>

definition absorb_word :: "SipHash \<Rightarrow> u64 \<Rightarrow> SipHash" where
  "absorb_word s w =
    (let t = (SIPROUND ^^ 2) (s\<lparr>current_word := w, v3 := v3 s XOR w\<rparr>)
     in t\<lparr>v0 := v0 t XOR w\<rparr>)"

definition stream_from :: "SipHash \<Rightarrow> u8 list \<Rightarrow> SipHash" where
  "stream_from s0 bs =
    (foldl absorb_word s0 (le_words bs))
      \<lparr>cnt := of_nat (length bs), current_word := load_le (tail_bytes bs)\<rparr>"

subsection \<open>The inverse of a round\<close>

text \<open>The assignments of \<^verbatim>\<open>SIPROUND\<close> undone one by one, last first.\<close>

definition SIPROUND_inv :: "SipHash \<Rightarrow> SipHash" where
  "SIPROUND_inv s =
    (let s = s\<lparr>v2 := word_rotr 32 (v2 s)\<rparr>; s = s\<lparr>v1 := v1 s XOR v2 s\<rparr>;
         s = s\<lparr>v1 := word_rotr 17 (v1 s)\<rparr>; s = s\<lparr>v2 := v2 s - v1 s\<rparr>;
         s = s\<lparr>v3 := v3 s XOR v0 s\<rparr>; s = s\<lparr>v3 := word_rotr 21 (v3 s)\<rparr>;
         s = s\<lparr>v0 := v0 s - v3 s\<rparr>;
         s = s\<lparr>v3 := v3 s XOR v2 s\<rparr>; s = s\<lparr>v3 := word_rotr 16 (v3 s)\<rparr>;
         s = s\<lparr>v2 := v2 s - v3 s\<rparr>;
         s = s\<lparr>v0 := word_rotr 32 (v0 s)\<rparr>; s = s\<lparr>v1 := v1 s XOR v0 s\<rparr>;
         s = s\<lparr>v1 := word_rotr 13 (v1 s)\<rparr>; s = s\<lparr>v0 := v0 s - v1 s\<rparr>
     in s)"

subsection \<open>The reference SipHash-2-4\<close>

text \<open>
  SipHash-2-4 as its designers publish it, written without the class: SipRound on four
  64-bit words with rotations to the left; the message followed by zero bytes and a last
  byte holding its length modulo 256, so that the whole is a multiple of 8 bytes; the
  words of that, each the little-endian number of its 8 bytes; per word \<open>m\<close> the
  compression \<open>v3 ^= m\<close>, two SipRounds, \<open>v0 ^= m\<close>; then \<open>v2 ^= 0xff\<close>, four
  SipRounds, and the XOR of the four words.
\<close>

definition sipround_ref :: "lanes \<Rightarrow> lanes" where
  "sipround_ref = (\<lambda>(a, b, c, d).
     let a = a + b; c = c + d; b = word_rotl 13 b; d = word_rotl 16 d;
         b = b XOR a; d = d XOR c; a = word_rotl 32 a;
         c = c + b; a = a + d; b = word_rotl 17 b; d = word_rotl 21 d;
         b = b XOR c; d = d XOR a; c = word_rotl 32 c
     in (a, b, c, d))"

definition pad_ref :: "u8 list \<Rightarrow> u8 list" where
  "pad_ref bs = bs @ replicate (7 - length bs mod 8) 0 @ [of_nat (length bs mod 256)]"

definition words_ref :: "u8 list \<Rightarrow> u64 list" where
  "words_ref xs =
     map (\<lambda>i. horner_sum ucast 256 (take 8 (drop (8 * i) xs))) [0..<length xs div 8]"

definition compress_ref :: "lanes \<Rightarrow> u64 \<Rightarrow> lanes" where
  "compress_ref v m =
    (case v of (a, b, c, d) \<Rightarrow>
       (case (sipround_ref ^^ 2) (a, b, c, d XOR m) of (a, b, c, d) \<Rightarrow> (a XOR m, b, c, d)))"

definition finalize_ref :: "lanes \<Rightarrow> u64" where
  "finalize_ref v =
    (case v of (a, b, c, d) \<Rightarrow>
       (case (sipround_ref ^^ 4) (a, b, c XOR 0xff, d) of (a, b, c, d) \<Rightarrow>
          a XOR b XOR c XOR d))"

definition siphash24_ref :: "u64 \<Rightarrow> u64 \<Rightarrow> u8 list \<Rightarrow> u64" where
  "siphash24_ref k0 k1 bs =
     finalize_ref
       (foldl compress_ref
          (k0 XOR 0x736f6d6570736575, k1 XOR 0x646f72616e646f6d,
           k0 XOR 0x6c7967656e657261, k1 XOR 0x7465646279746573)
          (words_ref (pad_ref bs)))"

text \<open>The input of the published test vectors: the bytes 0, 1, ..., \<open>n - 1\<close>.\<close>

definition vector_input :: "nat \<Rightarrow> u8 list" where
  "vector_input n = map of_nat [0..<n]"

section \<open>Auxiliary lemmas\<close>

subsection \<open>Bytes and words\<close>

lemma ff_mask: "(0xff :: u64) = mask 8"
  by (simp add: mask_eq_exp_minus_1)

lemma bit_set_byte:
  "i < 8 \<Longrightarrow> bit (set_byte i b w) n \<longleftrightarrow>
     (if 8 * i \<le> n \<and> n < 8 * i + 8 then bit b (n - 8 * i) else bit w n)"
  unfolding set_byte_def ff_mask
  by (auto simp: bit_simps dest: bit_imp_le_length)

lemma bit_get_byte: "bit (get_byte i w) n \<longleftrightarrow> n < 8 \<and> bit w (8 * i + n)"
  by (auto simp: get_byte_def bit_simps dest: bit_imp_le_length)

lemma bit_load_le:
  "bit (load_le bs) n \<longleftrightarrow> n < 64 \<and> n div 8 < length bs \<and> bit (bs ! (n div 8)) (n mod 8)"
proof (induction bs arbitrary: n)
  case Nil
  then show ?case by simp
next
  case (Cons b bs)
  show ?case
  proof (cases "n < 8")
    case True
    then show ?thesis by (auto simp: bit_simps dest: bit_imp_le_length)
  next
    case False
    then have "n div 8 = Suc ((n - 8) div 8)" "n mod 8 = (n - 8) mod 8"
      by (simp_all add: div_if mod_if) 
    with False show ?thesis
      by (auto simp: bit_simps Cons.IH dest: bit_imp_le_length)
  qed
qed

lemma get_byte_set_byte:
  "i < 8 \<Longrightarrow> j < 8 \<Longrightarrow> get_byte j (set_byte i b w) = (if j = i then b else get_byte j w)"
  by (rule bit_word_eqI) (auto simp: bit_get_byte bit_set_byte)

lemma length_store_le: "length (store_le w) = 8"
  by (simp add: store_le_def)

lemma nth_store_le: "i < 8 \<Longrightarrow> store_le w ! i = get_byte i w"
  by (simp add: store_le_def)

lemma load_le_store_le: "load_le (store_le w) = w"
proof (rule bit_word_eqI)
  fix n assume "n < LENGTH(64)"
  then have n: "n < 64" by simp
  then have d: "n div 8 < 8" by simp
  have "8 * (n div 8) + n mod 8 = n" by simp
  have "bit (load_le (store_le w)) n = bit (get_byte (n div 8) w) (n mod 8)"
    using n d by (simp add: bit_load_le length_store_le nth_store_le)
  then show "bit (load_le (store_le w)) n = bit w n"
    by (simp add: bit_get_byte)
qed

lemma store_le_load_le: "length bs = 8 \<Longrightarrow> store_le (load_le bs) = bs"
proof (rule nth_equalityI)
  show "length bs = 8 \<Longrightarrow> length (store_le (load_le bs)) = length bs"
    by (simp add: length_store_le)
next
  fix i assume l: "length bs = 8" and "i < length (store_le (load_le bs))"
  then have i: "i < 8" by (simp add: length_store_le)
  have "get_byte i (load_le bs) = bs ! i"
  proof (rule bit_word_eqI)
    fix n assume "n < LENGTH(8)"
    then have n: "n < 8" by simp
    with i have "8 * i + n < 64" "(8 * i + n) div 8 = i" "(8 * i + n) mod 8 = n" by simp_all
    with n i l show "bit (get_byte i (load_le bs)) n = bit (bs ! i) n"
      by (simp add: bit_get_byte bit_load_le)
  qed
  with i show "store_le (load_le bs) ! i = bs ! i"
    by (simp add: nth_store_le)
qed

lemma ROTL_word_rotl:
  assumes "0 < b" "b < 64"
  shows "ROTL x b = word_rotl b x"
proof (rule bit_word_eqI)
  fix n assume "n < LENGTH(64)"
  then have n: "n < 64" by simp
  show "bit (ROTL x b) n = bit (word_rotl b x) n"
  proof (cases "b \<le> n")
    case True
    with n assms have "(n + 64 - b) mod 64 = n - b" "\<not> 64 - b + n < 64"
      by (simp_all add: mod_if)
    with True n assms show ?thesis
      by (auto simp: ROTL_def bit_simps dest: bit_imp_le_length)
  next
    case False
    with n assms have "(n + 64 - b) mod 64 = 64 - b + n" "64 - b + n < 64"
      by simp_all
    with False n assms show ?thesis
      by (auto simp: ROTL_def bit_simps)
  qed
qed

subsection \<open>The round\<close>

lemma SIPROUND_rotl:
  "SIPROUND s =
    (let a = v0 s + v1 s; c = v2 s + v3 s;
         b = word_rotl 13 (v1 s) XOR a; d = word_rotl 16 (v3 s) XOR c;
         a = word_rotl 32 a + d; c = c + b
     in s\<lparr>v0 := a, v1 := word_rotl 17 b XOR c, v2 := word_rotl 32 c,
           v3 := word_rotl 21 d XOR a\<rparr>)"
  by (simp add: SIPROUND_def Let_def ROTL_word_rotl)

lemma cnt_SIPROUND [simp]: "cnt (SIPROUND s) = cnt s"
  by (simp add: SIPROUND_def Let_def)

lemma current_word_SIPROUND [simp]: "current_word (SIPROUND s) = current_word s"
  by (simp add: SIPROUND_def Let_def)

lemma SIPROUND_cnt_update: "SIPROUND (s\<lparr>cnt := c\<rparr>) = (SIPROUND s)\<lparr>cnt := c\<rparr>"
  by (simp add: SIPROUND_def Let_def)

lemma SIPROUND_current_word_update:
  "SIPROUND (s\<lparr>current_word := w\<rparr>) = (SIPROUND s)\<lparr>current_word := w\<rparr>"
  by (simp add: SIPROUND_def Let_def)

lemma lanes_SIPROUND: "lanes (SIPROUND s) = sipround_ref (lanes s)"
  by (simp add: SIPROUND_rotl lanes_def sipround_ref_def Let_def)

lemma xor_cancel_right: "(a XOR b) XOR b = (a :: u64)"
  by (simp add: xor.assoc)

lemma SIPROUND_inv_SIPROUND: "SIPROUND_inv (SIPROUND s) = s"
  by (simp add: SIPROUND_rotl SIPROUND_inv_def Let_def xor_cancel_right)

lemma SIPROUND_SIPROUND_inv: "SIPROUND (SIPROUND_inv s) = s"
  by (simp add: SIPROUND_rotl SIPROUND_inv_def Let_def xor_cancel_right)

subsection \<open>The counter and the carry word\<close>

lemma seven_mask: "(7 :: u64) = mask 3"
  by (simp add: mask_eq_exp_minus_1)

lemma unat_of_nat_and_7: "unat ((of_nat n :: u64) AND 7) = n mod 8"
proof -
  have "(of_nat n :: u64) AND mask 3 = of_nat (take_bit 3 n)"
    by (simp add: take_bit_eq_mask of_nat_and_eq of_nat_mask_eq)
  then have "unat ((of_nat n :: u64) AND 7) = unat (of_nat (n mod 8) :: u64)"
    by (simp add: seven_mask take_bit_eq_mod)
  also have "\<dots> = n mod 8"
    by (simp add: unat_of_nat)
  finally show ?thesis .
qed

lemma of_nat_and_7_eq_0: "((of_nat n :: u64) AND 7 = 0) \<longleftrightarrow> n mod 8 = 0"
proof -
  have "((of_nat n :: u64) AND 7 = 0) \<longleftrightarrow> unat ((of_nat n :: u64) AND 7) = 0"
    by (simp add: unat_eq_0)
  then show ?thesis by (simp add: unat_of_nat_and_7)
qed

lemma set_byte_load_le_append:
  assumes "length p < 8"
  shows "set_byte (length p) b (load_le p) = load_le (p @ [b])"
proof (rule bit_word_eqI)
  fix n assume "n < LENGTH(64)"
  then have n: "n < 64" by simp
  consider "n div 8 < length p" | "n div 8 = length p" | "n div 8 > length p" by linarith
  then show "bit (set_byte (length p) b (load_le p)) n = bit (load_le (p @ [b])) n"
  proof cases
    case 1
    then have "\<not> 8 * length p \<le> n" by linarith
    with 1 n assms show ?thesis
      by (simp add: bit_set_byte bit_load_le nth_append)
  next
    case 2
    then have "8 * length p \<le> n" "n < 8 * length p + 8" "n - 8 * length p = n mod 8"
      by (auto simp: minus_mult_div_eq_mod [symmetric] simp del: minus_mult_div_eq_mod)
    with 2 n assms show ?thesis
      by (simp add: bit_set_byte bit_load_le nth_append)
  next
    case 3
    then have "\<not> n < 8 * length p + 8" by linarith
    with 3 n assms show ?thesis
      by (simp add: bit_set_byte bit_load_le nth_append)
  qed
qed

lemma set_byte_push_bit:
  assumes "k < 8"
  shows "set_byte k b (push_bit (8 * Suc k) w) = push_bit (8 * k) (ucast b OR push_bit 8 w)"
proof (rule bit_word_eqI)
  fix n assume "n < LENGTH(64)"
  then have n: "n < 64" by simp
  show "bit (set_byte k b (push_bit (8 * Suc k) w)) n
      = bit (push_bit (8 * k) (ucast b OR push_bit 8 w)) n"
  proof (cases "n < 8 * k + 8")
    case True
    with n assms show ?thesis
      by (auto simp: bit_set_byte bit_simps dest: bit_imp_le_length)
  next
    case False
    then have "n - 8 * k - 8 = n - (8 + 8 * k)" "8 \<le> n - 8 * k" "8 * k \<le> n" "8 + 8 * k \<le> n"
      by simp_all
    with False n assms show ?thesis
      by (auto simp: bit_set_byte bit_simps dest: bit_imp_le_length)
  qed
qed

lemma load_le_append:
  "load_le (p @ q) = load_le p OR push_bit (8 * length p) (load_le q)"
  by (induction p) (simp_all add: push_bit_or or.assoc push_bit_push_bit flip: push_bit_add)

subsection \<open>Absorbing words\<close>

lemma SIPROUND_lanes:
  "SIPROUND s =
     s\<lparr>v0 := fst (sipround_ref (lanes s)),
       v1 := fst (snd (sipround_ref (lanes s))),
       v2 := fst (snd (snd (sipround_ref (lanes s)))),
       v3 := snd (snd (snd (sipround_ref (lanes s))))\<rparr>"
  by (simp add: SIPROUND_rotl lanes_def sipround_ref_def Let_def)

lemma mix_current_word_absorb: "mix_current_word (s\<lparr>current_word := w\<rparr>) = absorb_word s w"
  by (simp add: mix_current_word_def absorb_word_def Let_def numeral_2_eq_2)

lemma mix_current_word_absorb': "mix_current_word s = absorb_word s (current_word s)"
  using mix_current_word_absorb [where s = s and w = "current_word s"] by simp

lemma absorb_word_cnt_update: "absorb_word (s\<lparr>cnt := c\<rparr>) w = (absorb_word s w)\<lparr>cnt := c\<rparr>"
  by (simp add: absorb_word_def Let_def numeral_2_eq_2 SIPROUND_lanes lanes_def)

lemma absorb_word_current_word_update [simp]:
  "absorb_word (s\<lparr>current_word := x\<rparr>) w = absorb_word s w"
  by (simp add: absorb_word_def)

lemma cnt_absorb_word [simp]: "cnt (absorb_word s w) = cnt s"
  by (simp add: absorb_word_def Let_def numeral_2_eq_2)

lemma current_word_absorb_word [simp]: "current_word (absorb_word s w) = w"
  by (simp add: absorb_word_def Let_def numeral_2_eq_2)

lemma foldl_absorb_cnt_update:
  "foldl absorb_word (s\<lparr>cnt := c\<rparr>) ws = (foldl absorb_word s ws)\<lparr>cnt := c\<rparr>"
  by (induction ws arbitrary: s) (simp_all add: absorb_word_cnt_update)

lemma foldl_absorb_current_word_update:
  "(foldl absorb_word (s\<lparr>current_word := x\<rparr>) ws)\<lparr>current_word := y\<rparr>
     = (foldl absorb_word s ws)\<lparr>current_word := y\<rparr>"
  by (cases ws) simp_all

lemma cnt_foldl_absorb [simp]: "cnt (foldl absorb_word s ws) = cnt s"
  by (induction ws arbitrary: s) simp_all

subsection \<open>Words and left-over bytes of a stream\<close>

lemma le_words_short: "length p < 8 \<Longrightarrow> le_words p = []"
  by (simp add: le_words.simps)

lemma le_words_block: "length p = 8 \<Longrightarrow> le_words (p @ cs) = load_le p # le_words cs"
  by (subst le_words.simps) simp

lemma le_words_append:
  "8 dvd length as \<Longrightarrow> le_words (as @ cs) = le_words as @ le_words cs"
proof (induction as rule: le_words.induct)
  case (1 bs)
  show ?case
  proof (cases "length bs < 8")
    case True
    with "1.prems" have "length bs = 0"
      by (cases "length bs = 0") (auto dest: dvd_imp_le)
    then have "bs = []" by simp
    then show ?thesis by (simp add: le_words_short)
  next
    case False
    then have l: "length (take 8 bs) = 8"
      by simp
    from "1.prems" have "8 dvd length (drop 8 bs)"
      using dvd_diff_nat [of 8 "length bs" 8] by simp
    with False have IH: "le_words (drop 8 bs @ cs) = le_words (drop 8 bs) @ le_words cs"
      by (rule "1.IH")
    have "le_words (bs @ cs) = le_words (take 8 bs @ (drop 8 bs @ cs))"
      by (simp only: append_assoc [symmetric] append_take_drop_id)
    also have "\<dots> = load_le (take 8 bs) # le_words (drop 8 bs @ cs)"
      using l by (rule le_words_block)
    also have "\<dots> = le_words bs @ le_words cs"
      using False by (simp add: IH le_words.simps [of bs])
    finally show ?thesis .
  qed
qed

lemma tail_bytes_append: "8 dvd length as \<Longrightarrow> tail_bytes (as @ cs) = tail_bytes cs"
  by (auto simp: tail_bytes_def elim!: dvdE)

lemma tail_bytes_short: "length p < 8 \<Longrightarrow> tail_bytes p = p"
  by (simp add: tail_bytes_def)

lemma length_tail_bytes: "length (tail_bytes bs) = length bs mod 8"
  by (simp add: tail_bytes_def minus_mult_div_eq_mod)

lemma split_tail_bytes:
  "bs = take (8 * (length bs div 8)) bs @ tail_bytes bs"
  by (simp add: tail_bytes_def)

lemma length_full_part: "length (take (8 * (length bs div 8)) bs) = 8 * (length bs div 8)"
  by simp

lemma le_words_full_part: "le_words (take (8 * (length bs div 8)) bs) = le_words bs"
proof -
  have "le_words bs = le_words (take (8 * (length bs div 8)) bs @ tail_bytes bs)"
    using split_tail_bytes [of bs] by simp
  also have "\<dots> = le_words (take (8 * (length bs div 8)) bs) @ le_words (tail_bytes bs)"
    by (rule le_words_append) simp
  finally show ?thesis by (simp add: le_words_short length_tail_bytes)
qed

text \<open>Appending to a stream: only the pending bytes matter.\<close>

lemma le_words_stream_append:
  "le_words (bs @ cs) = le_words bs @ le_words (tail_bytes bs @ cs)"
proof -
  let ?A = "take (8 * (length bs div 8)) bs"
  have "le_words (bs @ cs) = le_words (?A @ (tail_bytes bs @ cs))"
    using split_tail_bytes [of bs] by (metis append_assoc)
  also have "\<dots> = le_words ?A @ le_words (tail_bytes bs @ cs)"
    by (rule le_words_append) simp
  finally show ?thesis by (simp add: le_words_full_part)
qed

lemma tail_bytes_stream_append:
  "tail_bytes (bs @ cs) = tail_bytes (tail_bytes bs @ cs)"
proof -
  let ?A = "take (8 * (length bs div 8)) bs"
  have "tail_bytes (bs @ cs) = tail_bytes (?A @ (tail_bytes bs @ cs))"
    using split_tail_bytes [of bs] by (metis append_assoc)
  also have "\<dots> = tail_bytes (tail_bytes bs @ cs)"
    by (rule tail_bytes_append) simp
  finally show ?thesis .
qed

subsection \<open>The loops of update\<close>

lemma read_u8_in: "p < length mem \<Longrightarrow> read_u8 mem p = Inr (mem ! p)"
  by (simp add: read_u8_def)

lemma read_u64_in:
  "p + 8 \<le> length mem \<Longrightarrow> read_u64 mem p = Inr (load_le (take 8 (drop p mem)))"
  by (simp add: read_u64_def)

lemma word_loop_words:
  "end \<le> length mem \<Longrightarrow>
   word_loop mem end s data =
     Inr (foldl absorb_word s (le_words (take (end - data) (drop data mem))),
          data + 8 * ((end - data) div 8))"
proof (induction mem "end" s data rule: word_loop.induct)
  case (1 mem "end" s data)
  show ?case
  proof (cases "data + 8 \<le> end")
    case False
    then have "end - data < 8" by simp
    with False show ?thesis
      by (subst word_loop.simps) (simp add: le_words_short)
  next
    case True
    let ?w = "load_le (take 8 (drop data mem))"
    from True "1.prems" have r: "read_u64 mem data = Inr ?w"
      by (simp add: read_u64_in)
    have IH: "word_loop mem end (mix_current_word (s\<lparr>current_word := ?w\<rparr>)) (data + 8) =
       Inr (foldl absorb_word (mix_current_word (s\<lparr>current_word := ?w\<rparr>))
              (le_words (take (end - (data + 8)) (drop (data + 8) mem))),
            data + 8 + 8 * ((end - (data + 8)) div 8))"
      using True r "1.prems" by (rule "1.IH")
    let ?X = "take (end - data) (drop data mem)"
    from True have l: "\<not> length ?X < 8" using "1.prems" by simp
    from True have t: "take 8 ?X = take 8 (drop data mem)"
      by (simp add: min_def)
    have d: "drop 8 ?X = take (end - (data + 8)) (drop (data + 8) mem)"
      by (simp add: drop_take add.commute)
    have w: "le_words ?X = ?w # le_words (take (end - (data + 8)) (drop (data + 8) mem))"
      using l by (subst le_words.simps) (simp only: t d if_False)
    from True have a: "data + 8 + 8 * ((end - (data + 8)) div 8) = data + 8 * ((end - data) div 8)"
      by (simp add: div_if [of "end - data"])
    from IH have IH': "word_loop mem end (absorb_word s ?w) (data + 8) =
       Inr (foldl absorb_word (absorb_word s ?w)
              (le_words (take (end - (data + 8)) (drop (data + 8) mem))),
            data + 8 * ((end - data) div 8))"
      by (simp only: mix_current_word_absorb a)
    show ?thesis
      using True
      by (subst word_loop.simps) (simp add: r IH' w mix_current_word_absorb)
  qed
qed

lemma switch_cases_bytes:
  "data + k \<le> length mem \<Longrightarrow> length q + k \<le> 8 \<Longrightarrow>
   current_word s = push_bit (8 * k) (load_le q) \<Longrightarrow>
   switch_cases mem data k s = Inr (s\<lparr>current_word := load_le (take k (drop data mem) @ q)\<rparr>)"
proof (induction k arbitrary: s q)
  case 0
  then show ?case by simp
next
  case (Suc k)
  let ?b = "mem ! (data + k)"
  let ?s = "s\<lparr>current_word := set_byte k ?b (current_word s)\<rparr>"
  from Suc.prems have r: "read_u8 mem (data + k) = Inr ?b"
    by (simp add: read_u8_in)
  from Suc.prems have k: "k < 8" by simp
  have "set_byte k ?b (current_word s) = set_byte k ?b (push_bit (8 * Suc k) (load_le q))"
    by (simp only: Suc.prems(3))
  also have "\<dots> = push_bit (8 * k) (ucast ?b OR push_bit 8 (load_le q))"
    using k by (rule set_byte_push_bit)
  finally have "current_word ?s = push_bit (8 * k) (load_le (?b # q))"
    by simp
  moreover from Suc.prems have "data + k \<le> length mem" "length (?b # q) + k \<le> 8"
    by simp_all
  ultimately have "switch_cases mem data k ?s
      = Inr (?s\<lparr>current_word := load_le (take k (drop data mem) @ ?b # q)\<rparr>)"
    by (intro Suc.IH)
  moreover from Suc.prems have "take (Suc k) (drop data mem) = take k (drop data mem) @ [?b]"
    by (simp add: take_Suc_conv_app_nth)
  ultimately show ?case
    by (simp add: r)
qed

lemma switch_tail_bytes:
  assumes "data \<le> end" "end \<le> length mem" "end - data < 8"
  shows "switch_tail mem end data (s\<lparr>current_word := 0\<rparr>)
        = Inr (s\<lparr>current_word := load_le (take (end - data) (drop data mem))\<rparr>)"
proof -
  have "switch_cases mem data (end - data) (s\<lparr>current_word := 0\<rparr>)
      = Inr (s\<lparr>current_word := 0\<rparr>\<lparr>current_word := load_le (take (end - data) (drop data mem) @ [])\<rparr>)"
    using assms by (intro switch_cases_bytes) simp_all
  with assms show ?thesis by (simp add: switch_tail_def)
qed

lemma update_rest_stream:
  assumes "data \<le> end" "end \<le> length mem"
  shows "update_rest mem end s data =
     Inr ((foldl absorb_word s (le_words (take (end - data) (drop data mem))))
            \<lparr>cnt := cnt s + of_nat (end - data),
              current_word := load_le (tail_bytes (take (end - data) (drop data mem)))\<rparr>)"
proof -
  let ?X = "take (end - data) (drop data mem)"
  let ?d = "data + 8 * ((end - data) div 8)"
  let ?s = "s\<lparr>cnt := cnt s + of_nat (end - data)\<rparr>"
  have w: "word_loop mem end ?s data = Inr (foldl absorb_word ?s (le_words ?X), ?d)"
    using assms(2) by (rule word_loop_words)
  have d: "?d \<le> end" "end - ?d < 8" "end - ?d = (end - data) mod 8"
    using assms(1) by (simp_all add: minus_mult_div_eq_mod [symmetric] del: minus_mult_div_eq_mod)
  have l: "length ?X = end - data"
    using assms by simp
  have t: "tail_bytes ?X = take (end - ?d) (drop ?d mem)"
    using assms d(3) by (simp add: tail_bytes_def drop_take l add.commute minus_mult_div_eq_mod)
  show ?thesis
    unfolding update_rest_def Let_def w
    by (simp add: switch_tail_bytes [OF d(1) assms(2) d(2)] t foldl_absorb_cnt_update)
qed

lemma fill_loop_bytes:
  "end \<le> length mem \<Longrightarrow> cnt s = of_nat n \<Longrightarrow> current_word s = load_le p \<Longrightarrow>
   length p \<le> 8 \<Longrightarrow> n mod 8 = length p mod 8 \<Longrightarrow>
   fill_loop mem end s data =
     Inr (s\<lparr>current_word :=
              load_le (p @ take (min ((8 - length p) mod 8) (end - data)) (drop data mem)),
            cnt := of_nat (n + min ((8 - length p) mod 8) (end - data))\<rparr>,
          data + min ((8 - length p) mod 8) (end - data))"
proof (induction mem "end" s data arbitrary: n p rule: fill_loop.induct)
  case (1 mem "end" s data)
  let ?k = "min ((8 - length p) mod 8) (end - data)"
  show ?case
  proof (cases "cnt s AND 7 \<noteq> 0 \<and> data < end")
    case False
    then have "n mod 8 = 0 \<or> \<not> data < end"
      using "1.prems"(2) by (simp add: of_nat_and_7_eq_0)
    then have "?k = 0"
      using "1.prems"(4,5) by (cases "length p = 8") auto
    moreover have "fill_loop mem end s data = Inr (s, data)"
      using False by (subst fill_loop.simps) (simp only: if_False)
    moreover have "s = s\<lparr>current_word := load_le p, cnt := of_nat n\<rparr>"
      using "1.prems"(2,3) by simp
    ultimately show ?thesis
      by simp
  next
    case True
    then have n0: "n mod 8 \<noteq> 0" and d: "data < end"
      using "1.prems"(2) by (simp_all add: of_nat_and_7_eq_0)
    from n0 "1.prems"(4,5) have lp: "length p < 8" "n mod 8 = length p" "0 < length p"
      by (cases "length p = 8"; simp)+
    let ?b = "mem ! data"
    let ?s = "s\<lparr>current_word := set_byte (unat (cnt s AND 7)) ?b (current_word s),
                 cnt := cnt s + 1\<rparr>"
    let ?p = "p @ [?b]"
    let ?k' = "min ((8 - length ?p) mod 8) (end - (data + 1))"
    from d "1.prems"(1) have r: "read_u8 mem data = Inr ?b"
      by (simp add: read_u8_in)
    have i: "unat (cnt s AND 7) = length p"
      using "1.prems"(2) lp(2) by (simp add: unat_of_nat_and_7)
    have c: "cnt ?s = of_nat (Suc n)"
      using "1.prems"(2) by simp
    have w: "current_word ?s = load_le ?p"
      using "1.prems"(3) lp(1) by (simp add: i set_byte_load_le_append)
    have l: "length ?p \<le> 8"
      using lp(1) by simp
    have m: "Suc n mod 8 = length ?p mod 8"
      using lp(2) by (simp add: mod_Suc)
    have IH: "fill_loop mem end ?s (data + 1) =
       Inr (?s\<lparr>current_word := load_le (?p @ take ?k' (drop (data + 1) mem)),
               cnt := of_nat (Suc n + ?k')\<rparr>,
            data + 1 + ?k')"
      using True r "1.prems"(1) c w l m by (rule "1.IH")
    have k1: "(8 - length p) mod 8 = 8 - length p" and k2: "(8 - length ?p) mod 8 = 7 - length p"
      using lp by simp_all
    have k: "?k = Suc ?k'"
      unfolding k1 k2 using lp d by arith
    have "drop data mem = ?b # drop (data + 1) mem"
      using d "1.prems"(1) by (simp add: Cons_nth_drop_Suc)
    then have a: "p @ take ?k (drop data mem) = ?p @ take ?k' (drop (data + 1) mem)"
      by (simp only: k take_Suc_Cons append_assoc append_Cons append_Nil)
    have e: "Suc n + ?k' = n + ?k" "data + 1 + ?k' = data + ?k"
      by (simp_all only: k)
    show ?thesis
      using True
      by (subst fill_loop.simps) (simp only: r IH a e if_True sum.case, simp)
  qed
qed

subsection \<open>One call on a stream\<close>

lemma fields_commute:
  "s\<lparr>current_word := y, cnt := c\<rparr> = s\<lparr>cnt := c, current_word := y\<rparr>"
  by simp

lemma foldl_absorb_fields:
  "(foldl absorb_word (s\<lparr>cnt := c, current_word := x\<rparr>) ws)\<lparr>cnt := c', current_word := y\<rparr>
     = (foldl absorb_word s ws)\<lparr>cnt := c', current_word := y\<rparr>"
proof -
  have "(foldl absorb_word (s\<lparr>cnt := c, current_word := x\<rparr>) ws)\<lparr>current_word := y\<rparr>
      = (foldl absorb_word (s\<lparr>cnt := c\<rparr>) ws)\<lparr>current_word := y\<rparr>"
    by (rule foldl_absorb_current_word_update)
  also have "\<dots> = (foldl absorb_word s ws)\<lparr>cnt := c, current_word := y\<rparr>"
    by (simp add: foldl_absorb_cnt_update)
  finally have "(foldl absorb_word (s\<lparr>cnt := c, current_word := x\<rparr>) ws)\<lparr>current_word := y\<rparr>\<lparr>cnt := c'\<rparr>
      = (foldl absorb_word s ws)\<lparr>cnt := c, current_word := y\<rparr>\<lparr>cnt := c'\<rparr>"
    by simp
  then show ?thesis by (simp add: fields_commute)
qed

lemma foldl_absorb_fields':
  "(foldl absorb_word (s\<lparr>current_word := x, cnt := c\<rparr>) ws)\<lparr>cnt := c', current_word := y\<rparr>
     = (foldl absorb_word s ws)\<lparr>cnt := c', current_word := y\<rparr>"
  unfolding fields_commute by (rule foldl_absorb_fields)

lemma cnt_stream_from: "cnt (stream_from s0 bs) = of_nat (length bs)"
  by (simp add: stream_from_def)

lemma current_word_stream_from: "current_word (stream_from s0 bs) = load_le (tail_bytes bs)"
  by (simp add: stream_from_def)

lemma stream_from_append:
  "stream_from s0 (bs @ cs) =
     (foldl absorb_word (stream_from s0 bs) (le_words (tail_bytes bs @ cs)))
       \<lparr>cnt := of_nat (length bs + length cs),
         current_word := load_le (tail_bytes (tail_bytes bs @ cs))\<rparr>"
  by (simp add: stream_from_def le_words_stream_append [of bs cs]
      tail_bytes_stream_append [of bs cs] foldl_absorb_fields)

lemma update_stream:
  assumes "sz \<le> length mem"
  shows "update (stream_from s0 bs) mem sz = Inr (stream_from s0 (bs @ take sz mem))"
proof -
  let ?S = "stream_from s0 bs"
  let ?p = "tail_bytes bs"
  let ?n = "length bs"
  let ?X = "?p @ take sz mem"
  have c: "cnt ?S = of_nat ?n" and w: "current_word ?S = load_le ?p"
    by (simp_all add: stream_from_def)
  have lp: "length ?p = ?n mod 8" "length ?p < 8"
    by (simp_all add: length_tail_bytes)
  have goal: "stream_from s0 (bs @ take sz mem) =
     (foldl absorb_word ?S (le_words ?X))
       \<lparr>cnt := of_nat (?n + sz), current_word := load_le (tail_bytes ?X)\<rparr>"
    using assms by (simp add: stream_from_append)
  show ?thesis
  proof (cases "cnt ?S AND 7 = 0")
    case True
    then have "?n mod 8 = 0" by (simp add: c of_nat_and_7_eq_0)
    with lp have p: "?p = []" by simp
    have "update ?S mem sz = update_rest mem sz ?S 0"
      using True by (simp add: update_def)
    also have "\<dots> = Inr ((foldl absorb_word ?S (le_words (take sz mem)))
            \<lparr>cnt := cnt ?S + of_nat sz,
              current_word := load_le (tail_bytes (take sz mem))\<rparr>)"
      using update_rest_stream [of 0 sz mem ?S] assms by simp
    finally show ?thesis
      by (simp add: goal p c)
  next
    case False
    then have n0: "?n mod 8 \<noteq> 0" by (simp add: c of_nat_and_7_eq_0)
    let ?k = "min (8 - length ?p) sz"
    let ?S1 = "?S\<lparr>current_word := load_le (?p @ take ?k mem), cnt := of_nat (?n + ?k)\<rparr>"
    have m8: "(8 - length ?p) mod 8 = 8 - length ?p"
      using lp n0 by simp
    have "fill_loop mem sz ?S 0 =
       Inr (?S\<lparr>current_word :=
                load_le (?p @ take (min ((8 - length ?p) mod 8) (sz - 0)) (drop 0 mem)),
              cnt := of_nat (?n + min ((8 - length ?p) mod 8) (sz - 0))\<rparr>,
            0 + min ((8 - length ?p) mod 8) (sz - 0))"
      using assms c w by (rule fill_loop_bytes) (use lp in simp_all)
    then have f: "fill_loop mem sz ?S 0 = Inr (?S1, ?k)"
      by (simp only: m8 diff_zero drop_0 add_0)
    show ?thesis
    proof (cases "length ?p + sz < 8")
      case True
      then have ks: "?k = sz" by simp
      have "(?n + sz) mod 8 = (?n mod 8 + sz) mod 8"
        by (simp add: mod_add_left_eq)
      with True lp n0 have "(?n + sz) mod 8 \<noteq> 0"
        by simp
      then have nz: "cnt ?S1 AND 7 \<noteq> 0"
        by (simp add: ks of_nat_and_7_eq_0 del: of_nat_add)
      from True assms have X: "length ?X < 8" by simp
      have "update ?S mem sz = Inr ?S1"
        using False nz by (simp add: update_def f del: cnt_stream_from)
      then show ?thesis
        by (simp add: goal le_words_short [OF X] tail_bytes_short [OF X] ks)
    next
      case False
      then have ks: "?k = 8 - length ?p" "?k \<le> sz" by simp_all
      let ?P = "?p @ take ?k mem"
      let ?Y = "take (sz - ?k) (drop ?k mem)"
      have lP: "length ?P = 8"
        using lp assms ks by simp
      have "(?n + ?k) mod 8 = (?n mod 8 + ?k) mod 8"
        by (simp add: mod_add_left_eq)
      with lp have "(?n + ?k) mod 8 = 0"
        unfolding ks(1) by simp
      then have z: "cnt ?S1 AND 7 = 0"
        by (simp add: of_nat_and_7_eq_0 del: of_nat_add)
      have "take sz mem = take ?k mem @ ?Y"
        using ks(2) by (metis le_add_diff_inverse take_add)
      then have X: "?X = ?P @ ?Y" by simp
      have m: "mix_current_word ?S1 = absorb_word ?S1 (load_le ?P)"
        by (simp add: mix_current_word_absorb')
      have "update ?S mem sz = update_rest mem sz (mix_current_word ?S1) ?k"
        using \<open>cnt ?S AND 7 \<noteq> 0\<close> z by (simp add: update_def f)
      also have "\<dots> = Inr ((foldl absorb_word (absorb_word ?S1 (load_le ?P)) (le_words ?Y))
            \<lparr>cnt := cnt (absorb_word ?S1 (load_le ?P)) + of_nat (sz - ?k),
              current_word := load_le (tail_bytes ?Y)\<rparr>)"
        unfolding m using ks(2) assms by (rule update_rest_stream)
      also have "cnt (absorb_word ?S1 (load_le ?P)) + of_nat (sz - ?k) = of_nat (?n + sz)"
        using ks(2) by simp
      also have "foldl absorb_word (absorb_word ?S1 (load_le ?P)) (le_words ?Y)
          = foldl absorb_word ?S1 (le_words ?X)"
        unfolding X le_words_block [OF lP] by simp
      also have "tail_bytes ?Y = tail_bytes ?X"
      proof -
        have "8 dvd length ?P" by (simp only: lP dvd_refl)
        then have "tail_bytes (?P @ ?Y) = tail_bytes ?Y" by (rule tail_bytes_append)
        then show ?thesis by (simp only: X)
      qed
      finally show ?thesis
        by (simp add: goal foldl_absorb_fields')
    qed
  qed
qed

subsection \<open>The reference and the class\<close>

lemma load_le_horner: "load_le bs = horner_sum ucast 256 bs"
proof (induction bs)
  case Nil
  then show ?case by simp
next
  case (Cons b bs)
  have "(ucast b :: u64) + push_bit 8 (load_le bs) = ucast b OR push_bit 8 (load_le bs)"
    by (rule disjunctive_add) (auto simp: bit_simps dest: bit_imp_le_length)
  then show ?case
    by (simp add: Cons.IH [symmetric] push_bit_eq_mult mult.commute)
qed

lemma words_ref_le_words: "words_ref xs = le_words xs"
proof (induction xs rule: le_words.induct)
  case (1 bs)
  show ?case
  proof (cases "length bs < 8")
    case True
    then show ?thesis by (simp add: words_ref_def le_words_short)
  next
    case False
    then have d: "length bs div 8 = Suc (length (drop 8 bs) div 8)"
      by (simp add: div_if [of "length bs"])
    have "words_ref bs = load_le (take 8 bs) # words_ref (drop 8 bs)"
      unfolding words_ref_def d upt_conv_Cons [OF zero_less_Suc] map_Suc_upt [symmetric]
      by (simp add: load_le_horner o_def add.commute)
    with False show ?thesis
      by (simp add: "1.IH" le_words.simps [of bs])
  qed
qed

lemma load_le_length_byte:
  assumes "length p < 8"
  shows "load_le (p @ replicate (7 - length p) 0 @ [b]) = set_byte 7 b (load_le p)"
proof (rule bit_word_eqI)
  fix n assume "n < LENGTH(64)"
  then have n: "n < 64" by simp
  let ?xs = "p @ replicate (7 - length p) 0 @ [b]"
  have l: "length ?xs = 8" using assms by simp
  consider "n div 8 < length p" | "length p \<le> n div 8" "n div 8 < 7" | "n div 8 = 7"
    using n by fastforce
  then show "bit (load_le ?xs) n = bit (set_byte 7 b (load_le p)) n"
  proof cases
    case 1
    with assms have "n < 56" by simp
    with 1 n show ?thesis
      by (simp add: bit_load_le bit_set_byte nth_append)
  next
    case 2
    then have "n < 56" by simp
    moreover from 2 have "n div 8 - length p < 7 - length p"
      by arith
    with 2 have "?xs ! (n div 8) = 0"
      by (simp add: nth_append)
    ultimately show ?thesis
      using 2 n l by (simp add: bit_load_le bit_set_byte del: length_append)
  next
    case 3
    then have "56 \<le> n" "n - 56 = n mod 8"
      by (simp_all add: minus_mult_div_eq_mod [symmetric] del: minus_mult_div_eq_mod)
    moreover from 3 assms have "?xs ! (n div 8) = b"
      by (simp add: nth_append)
    ultimately show ?thesis
      using 3 n l by (simp add: bit_load_le bit_set_byte del: length_append)
  qed
qed

lemma le_words_pad_ref:
  "le_words (pad_ref bs) =
     le_words bs @ [set_byte 7 (of_nat (length bs)) (load_le (tail_bytes bs))]"
proof -
  let ?p = "tail_bytes bs"
  let ?b = "of_nat (length bs mod 256) :: u8"
  let ?P = "?p @ replicate (7 - length ?p) 0 @ [?b]"
  have lp: "length ?p < 8" "length ?p = length bs mod 8"
    by (simp_all add: length_tail_bytes)
  have b: "?b = of_nat (length bs)"
    by (simp add: word_of_nat_eq_iff take_bit_eq_mod)
  have "length ?P = 8" using lp(1) by simp
  then have "le_words (?P @ []) = load_le ?P # le_words []"
    by (rule le_words_block)
  then have "le_words ?P = [set_byte 7 ?b (load_le ?p)]"
    using lp(1) by (simp add: load_le_length_byte le_words_short)
  moreover have "le_words (pad_ref bs) = le_words bs @ le_words ?P"
    unfolding pad_ref_def lp(2) [symmetric] by (rule le_words_stream_append)
  ultimately show ?thesis by (simp add: b)
qed

lemma lanes_round2: "lanes ((SIPROUND ^^ 2) s) = (sipround_ref ^^ 2) (lanes s)"
  by (simp add: numeral_2_eq_2 lanes_SIPROUND)

lemma lanes_round4: "lanes ((SIPROUND ^^ 4) s) = (sipround_ref ^^ 4) (lanes s)"
  by (simp add: numeral_eq_Suc lanes_SIPROUND)

lemma lanes_absorb_word: "lanes (absorb_word s w) = compress_ref (lanes s) w"
proof -
  let ?t = "(SIPROUND ^^ 2) (s\<lparr>current_word := w, v3 := v3 s XOR w\<rparr>)"
  have "lanes ?t = (sipround_ref ^^ 2) (v0 s, v1 s, v2 s, v3 s XOR w)"
    by (simp add: lanes_round2) (simp add: lanes_def)
  then show ?thesis
    unfolding absorb_word_def Let_def compress_ref_def
    by (auto simp: lanes_def split: prod.splits)
qed

lemma lanes_foldl_absorb:
  "lanes (foldl absorb_word s ws) = foldl compress_ref (lanes s) ws"
  by (induction ws arbitrary: s) (simp_all add: lanes_absorb_word)

lemma lanes_fields [simp]: "lanes (s\<lparr>cnt := c\<rparr>) = lanes s" "lanes (s\<lparr>current_word := w\<rparr>) = lanes s"
  by (simp_all add: lanes_def)

subsection \<open>Several calls, and the reads of one call\<close>

lemma stream_from_Nil: "stream_from (SipHash_init k0 k1) [] = SipHash_init k0 k1"
  by (simp add: stream_from_def le_words_short tail_bytes_def SipHash_init_def)

lemma update_whole: "update (stream_from s0 bs) cs (length cs) = Inr (stream_from s0 (bs @ cs))"
  using update_stream [of "length cs" cs s0 bs] by simp

lemma updates_stream:
  "updates (stream_from s0 bs) chunks = Inr (stream_from s0 (bs @ concat chunks))"
  by (induction chunks arbitrary: bs) (simp_all add: update_whole)

lemma updates_init:
  "updates (SipHash_init k0 k1) chunks = Inr (stream_from (SipHash_init k0 k1) (concat chunks))"
  using updates_stream [of "SipHash_init k0 k1" "[]" chunks] by (simp add: stream_from_Nil)

lemma update_init:
  "update (SipHash_init k0 k1) bs (length bs) = Inr (stream_from (SipHash_init k0 k1) bs)"
  using update_whole [of "SipHash_init k0 k1" "[]" bs] by (simp add: stream_from_Nil)

lemma fill_loop_prefix:
  "end \<le> length mem \<Longrightarrow> data \<le> end \<Longrightarrow>
   \<exists>s' d. fill_loop mem end s data = Inr (s', d) \<and> d \<le> end \<and>
          fill_loop (take end mem) end s data = Inr (s', d)"
proof (induction mem "end" s data rule: fill_loop.induct)
  case (1 mem "end" s data)
  show ?case
  proof (cases "cnt s AND 7 \<noteq> 0 \<and> data < end")
    case False
    then have "fill_loop mem end s data = Inr (s, data)"
      "fill_loop (take end mem) end s data = Inr (s, data)"
      by (subst fill_loop.simps, simp only: if_False)+
    with "1.prems" show ?thesis by simp
  next
    case True
    let ?b = "mem ! data"
    let ?s = "s\<lparr>current_word := set_byte (unat (cnt s AND 7)) ?b (current_word s),
                 cnt := cnt s + 1\<rparr>"
    from True "1.prems" have r: "read_u8 mem data = Inr ?b" "read_u8 (take end mem) data = Inr ?b"
      by (simp_all add: read_u8_def)
    from True have "data + 1 \<le> end" by simp
    with True r(1) "1.prems"(1) have "\<exists>s' d. fill_loop mem end ?s (data + 1) = Inr (s', d) \<and> d \<le> end \<and>
          fill_loop (take end mem) end ?s (data + 1) = Inr (s', d)"
      by (rule "1.IH")
    then obtain s' d where "fill_loop mem end ?s (data + 1) = Inr (s', d)" "d \<le> end"
      "fill_loop (take end mem) end ?s (data + 1) = Inr (s', d)" by blast
    moreover have "fill_loop mem end s data = fill_loop mem end ?s (data + 1)"
      using True by (subst fill_loop.simps) (simp add: r)
    moreover have "fill_loop (take end mem) end s data = fill_loop (take end mem) end ?s (data + 1)"
      using True by (subst fill_loop.simps) (simp add: r)
    ultimately show ?thesis by simp
  qed
qed

lemma update_rest_prefix:
  assumes "data \<le> end" "end \<le> length mem"
  shows "\<exists>s'. update_rest mem end s data = Inr s' \<and> update_rest (take end mem) end s data = Inr s'"
proof -
  have "take (end - data) (drop data (take end mem)) = take (end - data) (drop data mem)"
    using assms by (simp add: drop_take)
  moreover have "end \<le> length (take end mem)" using assms by simp
  ultimately show ?thesis
    using update_rest_stream [OF assms, of s] update_rest_stream [OF assms(1), of "take end mem" s]
    by simp
qed

lemma update_prefix:
  assumes "sz \<le> length mem"
  shows "\<exists>s'. update s mem sz = Inr s' \<and> update s (take sz mem) sz = Inr s'"
proof (cases "cnt s AND 7 \<noteq> 0")
  case False
  with update_rest_prefix [of 0 sz mem s] assms show ?thesis
    by (simp add: update_def)
next
  case True
  from fill_loop_prefix [of sz mem 0 s] assms obtain s1 d where
    f: "fill_loop mem sz s 0 = Inr (s1, d)" "d \<le> sz" "fill_loop (take sz mem) sz s 0 = Inr (s1, d)"
    by auto
  show ?thesis
  proof (cases "cnt s1 AND 7 \<noteq> 0")
    case True
    with \<open>cnt s AND 7 \<noteq> 0\<close> f show ?thesis by (simp add: update_def)
  next
    case False
    with \<open>cnt s AND 7 \<noteq> 0\<close> f update_rest_prefix [OF f(2) assms, of "mix_current_word s1"]
    show ?thesis by (simp add: update_def)
  qed
qed

subsection \<open>Finalization and digests\<close>

lemma store_le_set_byte_7: "store_le (set_byte 7 b w) = take 7 (store_le w) @ [b]"
proof (rule nth_equalityI)
  show "length (store_le (set_byte 7 b w)) = length (take 7 (store_le w) @ [b])"
    by (simp add: length_store_le)
next
  fix i assume "i < length (store_le (set_byte 7 b w))"
  then have i: "i < 8" by (simp add: length_store_le)
  then show "store_le (set_byte 7 b w) ! i = (take 7 (store_le w) @ [b]) ! i"
    by (cases "i = 7") (simp_all add: nth_store_le get_byte_set_byte nth_append length_store_le)
qed

lemma finalize_rounds:
  "finalize s =
     (SIPROUND ^^ 4)
       (let w = set_byte 7 (ucast (cnt s)) (current_word s);
            t = (SIPROUND ^^ 2) (s\<lparr>current_word := w, v3 := v3 s XOR w\<rparr>)
        in t\<lparr>v0 := v0 t XOR w, v2 := v2 t XOR 0xff\<rparr>)"
  by (simp add: finalize_def mix_current_word_def Let_def numeral_eq_Suc)

lemma cnt_funpow_SIPROUND [simp]: "cnt ((SIPROUND ^^ n) s) = cnt s"
  by (induction n) simp_all

lemma current_word_funpow_SIPROUND [simp]: "current_word ((SIPROUND ^^ n) s) = current_word s"
  by (induction n) simp_all

lemma cnt_finalize: "cnt (finalize s) = cnt s"
  by (simp add: finalize_rounds Let_def)

lemma current_word_finalize:
  "current_word (finalize s) = set_byte 7 (ucast (cnt s)) (current_word s)"
  by (simp add: finalize_rounds Let_def)

section \<open>The properties\<close>

text \<open>
  C5. For every key pair the constructor sets the four lanes to the four constants XORed
  with \<open>k0\<close>, \<open>k1\<close>, \<open>k0\<close>, \<open>k1\<close>, the counter to 0 and the carry word (all eight of
  its bytes) to 0; without arguments the key is the zero pair and the lanes are the
  constants themselves. The constructor is a total function: it has no failing branch.
\<close>

theorem SipHash_init_state:
  "v0 (SipHash_init k0 k1) = 0x736f6d6570736575 XOR k0 \<and>
   v1 (SipHash_init k0 k1) = 0x646f72616e646f6d XOR k1 \<and>
   v2 (SipHash_init k0 k1) = 0x6c7967656e657261 XOR k0 \<and>
   v3 (SipHash_init k0 k1) = 0x7465646279746573 XOR k1 \<and>
   cnt (SipHash_init k0 k1) = 0 \<and>
   current_word (SipHash_init k0 k1) = 0 \<and>
   store_le (current_word (SipHash_init k0 k1)) = replicate 8 0 \<and>
   SipHash_default =
     \<lparr>v0 = 0x736f6d6570736575, v1 = 0x646f72616e646f6d, v2 = 0x6c7967656e657261,
      v3 = 0x7465646279746573, cnt = 0, current_word = 0\<rparr>"
  by (simp add: SipHash_init_def SipHash_default_def store_le_def get_byte_def
      numeral_eq_Suc upt_rec)

text \<open>
  C3. \<^verbatim>\<open>finalize\<close> puts the low 8 bits of \<open>cnt\<close> into byte 7 of the carry word and
  keeps its bytes 0 to 6, XORs that word into lane 3, runs two rounds, XORs the word into
  lane 0, XORs \<open>0xff\<close> into lane 2 and runs four rounds; the counter stays as it was.
\<close>

theorem finalize_steps:
  "finalize s =
     (SIPROUND ^^ 4)
       (let w = set_byte 7 (ucast (cnt s)) (current_word s);
            t = (SIPROUND ^^ 2) (s\<lparr>current_word := w, v3 := v3 s XOR w\<rparr>)
        in t\<lparr>v0 := v0 t XOR w, v2 := v2 t XOR 0xff\<rparr>) \<and>
   cnt (finalize s) = cnt s \<and>
   store_le (current_word (finalize s)) = take 7 (store_le (current_word s)) @ [ucast (cnt s)] \<and>
   unat (get_byte 7 (current_word (finalize s))) = unat (cnt s) mod 256"
proof -
  have "get_byte 7 (current_word (finalize s)) = ucast (cnt s)"
    by (simp add: current_word_finalize get_byte_set_byte)
  moreover have "unat (ucast (cnt s) :: u8) = unat (cnt s) mod 256"
    by (simp add: unsigned_ucast_eq take_bit_eq_mod)
  ultimately show ?thesis
    by (simp add: finalize_rounds [symmetric] cnt_finalize current_word_finalize
        store_le_set_byte_7)
qed

end
